theory Spec2Isabelle
  imports Main "HOL-Library.Word"
begin

section \<open>The masker's sequence matcher\<close>

text \<open>
  A shallow embedding of package \<open>masker\<close>: the match table \<open>matches\<close> with its
  \<open>add\<close>, the per-pattern \<open>sequenceDetector\<close> with \<open>writeByte\<close> and
  \<open>findShift\<close>, and the \<open>matcher\<close> with \<open>newMatcher\<close> and \<open>write\<close>.

  Go's \<open>byte\<close> is an 8-bit word. Go's \<open>int64\<close>, the type of the matcher's
  \<open>currentIndex\<close> and of the keys of \<open>matches\<close>, is a 64-bit word: \<open>+\<close> wraps
  around as in Go, and \<open>sint\<close> reads the signed value. Go's \<open>int\<close>, the type of
  slice lengths, of loop indices and of the detector's \<open>currentIndex\<close>, is \<open>int\<close>:
  these values lie between \<open>-len(sequence)\<close> and the length of a slice, which is
  below \<open>2 ^ 63\<close>, so they never wrap; \<open>int64(x)\<close> of such a value is \<open>of_int x\<close>.
  A slice index outside \<open>[0, len)\<close> panics in Go; here it is the value
  \<open>Inl IndexOutOfRange\<close>, and every function that indexes a slice returns a sum.
\<close>

type_synonym byte = "8 word"

type_synonym int64 = "64 word"

datatype error = IndexOutOfRange

definition index :: "'a list \<Rightarrow> int \<Rightarrow> error + 'a" where
  "index xs i = (if 0 \<le> i \<and> i < int (length xs) then Inr (xs ! nat i) else Inl IndexOutOfRange)"

text \<open>A pattern or chunk written as a string literal, as \<open>[]byte("...")\<close> in Go.\<close>

definition bytes :: "string \<Rightarrow> byte list" where
  "bytes s = map of_char s"

subsection \<open>matches\<close>

type_synonym matches = "int64 \<rightharpoonup> int"

definition add :: "matches \<Rightarrow> int64 \<Rightarrow> int \<Rightarrow> matches" where
  "add m idx len =
     (case m idx of
        None \<Rightarrow> m(idx \<mapsto> len)
      | Some existing \<Rightarrow> if existing < len then m(idx \<mapsto> len) else m)"

subsection \<open>sequenceDetector\<close>

record sequenceDetector =
  sequence :: "byte list"
  currentIndex :: int

text \<open>
  The inner loop of \<open>findShift\<close>: \<open>i\<close> runs from its start value while
  \<open>i < currentIndex - offset\<close>; \<open>Inr False\<close> is the \<open>break\<close> with \<open>ok = false\<close>.
\<close>

function findShift_inner :: "byte list \<Rightarrow> int \<Rightarrow> int \<Rightarrow> int \<Rightarrow> error + bool" where
  "findShift_inner s c offset i =
     (if i < c - offset then
        (case index s i of
           Inl e \<Rightarrow> Inl e
         | Inr x \<Rightarrow>
            (case index s (i + offset) of
               Inl e \<Rightarrow> Inl e
             | Inr y \<Rightarrow> if x \<noteq> y then Inr False else findShift_inner s c offset (i + 1)))
      else Inr True)"
  by pat_completeness auto
termination
  by (relation "measure (\<lambda>(s, c, offset, i). nat (c - offset - i))") auto

text \<open>
  The outer loop of \<open>findShift\<close>: \<open>Inr (Some offset)\<close> is the \<open>return offset\<close>
  inside the loop, \<open>Inr None\<close> is the loop running out.
\<close>

function findShift_outer :: "byte list \<Rightarrow> int \<Rightarrow> int \<Rightarrow> error + int option" where
  "findShift_outer s c offset =
     (if offset \<le> c then
        (case findShift_inner s c offset 0 of
           Inl e \<Rightarrow> Inl e
         | Inr ok \<Rightarrow> if ok then Inr (Some offset) else findShift_outer s c (offset + 1))
      else Inr None)"
  by pat_completeness auto
termination
  by (relation "measure (\<lambda>(s, c, offset). nat (c + 1 - offset))") auto

definition findShift :: "sequenceDetector \<Rightarrow> error + int" where
  "findShift m =
     (case findShift_outer (sequence m) (currentIndex m) 1 of
        Inl e \<Rightarrow> Inl e
      | Inr (Some offset) \<Rightarrow> Inr offset
      | Inr None \<Rightarrow> Inr (currentIndex m))"

function writeByte :: "sequenceDetector \<Rightarrow> byte \<Rightarrow> error + (bool \<times> sequenceDetector)" where
  "writeByte m b =
     (case index (sequence m) (currentIndex m) of
        Inl e \<Rightarrow> Inl e
      | Inr x \<Rightarrow>
          if x = b then
            (let m1 = m\<lparr>currentIndex := currentIndex m + 1\<rparr> in
             if currentIndex m1 = int (length (sequence m1))
             then Inr (True, m1\<lparr>currentIndex := 0\<rparr>)
             else Inr (False, m1))
          else
            (case findShift m of
               Inl e \<Rightarrow> Inl e
             | Inr shift \<Rightarrow>
                 (let m2 = m\<lparr>currentIndex := currentIndex m - shift\<rparr> in
                  case index (sequence m2) (currentIndex m2) of
                    Inl e \<Rightarrow> Inl e
                  | Inr y \<Rightarrow> if y = b then writeByte m2 b else Inr (False, m2))))"
  by pat_completeness auto
termination
  by (relation "measure (\<lambda>(m, b).
        case index (sequence m) (currentIndex m) of
          Inl e \<Rightarrow> 0
        | Inr x \<Rightarrow> if x = b then 0 else 1)") auto

subsection \<open>matcher\<close>

record matcher =
  matchers :: "sequenceDetector list"
  currentIndex_mb :: int64

text \<open>
  \<open>newMatcher\<close> allocates one detector per sequence, each with \<open>currentIndex = 0\<close>
  (the zero value), and a matcher with \<open>currentIndex = 0\<close>. It has no error result.
\<close>

definition newMatcher :: "byte list list \<Rightarrow> matcher" where
  "newMatcher sequences =
     \<lparr>matchers = map (\<lambda>seq. \<lparr>sequence = seq, currentIndex = 0\<rparr>) sequences,
      currentIndex_mb = 0\<rparr>"

text \<open>
  The inner loop of \<open>write\<close> (\<open>for _, matcher := range mb.matchers\<close>) at byte \<open>b\<close>
  with index \<open>i\<close>; \<open>ci\<close> is \<open>mb.currentIndex\<close>. It returns the table and the
  detectors as the calls to \<open>writeByte\<close> left them.
\<close>

fun write_matchers ::
  "int64 \<Rightarrow> int \<Rightarrow> byte \<Rightarrow> sequenceDetector list \<Rightarrow> matches \<Rightarrow>
   error + (matches \<times> sequenceDetector list)" where
  "write_matchers ci i b [] res = Inr (res, [])"
| "write_matchers ci i b (m # ms) res =
     (case writeByte m b of
        Inl e \<Rightarrow> Inl e
      | Inr (match, m') \<Rightarrow>
          (let res' = (if match
                       then add res (ci + of_int (i - int (length (sequence m')) + 1))
                              (int (length (sequence m')))
                       else res)
           in case write_matchers ci i b ms res' of
                Inl e \<Rightarrow> Inl e
              | Inr (res'', ms') \<Rightarrow> Inr (res'', m' # ms')))"

text \<open>The outer loop of \<open>write\<close> (\<open>for i, b := range in\<close>), from index \<open>i\<close> on.\<close>

fun write_bytes ::
  "int64 \<Rightarrow> int \<Rightarrow> byte list \<Rightarrow> sequenceDetector list \<Rightarrow> matches \<Rightarrow>
   error + (matches \<times> sequenceDetector list)" where
  "write_bytes ci i [] ms res = Inr (res, ms)"
| "write_bytes ci i (b # bs) ms res =
     (case write_matchers ci i b ms res of
        Inl e \<Rightarrow> Inl e
      | Inr (res', ms') \<Rightarrow> write_bytes ci (i + 1) bs ms' res')"

definition "write" :: "matcher \<Rightarrow> byte list \<Rightarrow> error + (matches \<times> matcher)" where
  "write mb inp =
     (case write_bytes (currentIndex_mb mb) 0 inp (matchers mb) Map.empty of
        Inl e \<Rightarrow> Inl e
      | Inr (res, ms) \<Rightarrow>
          Inr (res, \<lparr>matchers = ms,
                     currentIndex_mb = currentIndex_mb mb + of_int (int (length inp))\<rparr>))"

text \<open>
  A caller feeding consecutive chunks through successive \<open>write\<close> calls on the same
  matcher; the tables are collected in call order.
\<close>

fun writes :: "matcher \<Rightarrow> byte list list \<Rightarrow> error + (matches list \<times> matcher)" where
  "writes mb [] = Inr ([], mb)"
| "writes mb (c # cs) =
     (case write mb c of
        Inl e \<Rightarrow> Inl e
      | Inr (t, mb') \<Rightarrow>
          (case writes mb' cs of
             Inl e \<Rightarrow> Inl e
           | Inr (ts, mb'') \<Rightarrow> Inr (t # ts, mb'')))"

subsection \<open>Specification vocabulary\<close>

text \<open>
  The definitions below are not functions of the package; they name what the properties
  talk about. A detector is \<open>wellformed\<close> when its pattern is non-empty and its cursor
  lies in \<open>[0, len(sequence))\<close>.
\<close>

definition wellformed :: "sequenceDetector \<Rightarrow> bool" where
  "wellformed m \<longleftrightarrow>
     sequence m \<noteq> [] \<and> 0 \<le> currentIndex m \<and> currentIndex m < int (length (sequence m))"

text \<open>
  \<open>overlap s c offset\<close>: the slice \<open>s[0 .. c - offset)\<close> equals the slice
  \<open>s[offset .. c)\<close>, byte for byte.
\<close>

definition overlap :: "byte list \<Rightarrow> int \<Rightarrow> int \<Rightarrow> bool" where
  "overlap s c offset \<longleftrightarrow>
     take (nat (c - offset)) s = take (nat (c - offset)) (drop (nat offset) s)"

text \<open>
  \<open>advance\<close> is the match step of \<open>writeByte\<close>, the body of its first \<open>if\<close>:
  increment the cursor, and on reaching the end of the pattern reset it and report.
\<close>

definition advance :: "sequenceDetector \<Rightarrow> bool \<times> sequenceDetector" where
  "advance m =
     (let m1 = m\<lparr>currentIndex := currentIndex m + 1\<rparr> in
      if currentIndex m1 = int (length (sequence m1))
      then (True, m1\<lparr>currentIndex := 0\<rparr>)
      else (False, m1))"

text \<open>
  What one call of \<open>writeByte\<close> reports and the detector it leaves behind, and the
  detector left behind by feeding a whole byte sequence.
\<close>

definition reports :: "sequenceDetector \<Rightarrow> byte \<Rightarrow> bool" where
  "reports m b = (case writeByte m b of Inl e \<Rightarrow> False | Inr (match, m') \<Rightarrow> match)"

definition after :: "sequenceDetector \<Rightarrow> byte \<Rightarrow> sequenceDetector" where
  "after m b = (case writeByte m b of Inl e \<Rightarrow> m | Inr (match, m') \<Rightarrow> m')"

definition run :: "sequenceDetector \<Rightarrow> byte list \<Rightarrow> sequenceDetector" where
  "run m bs = foldl after m bs"

text \<open>Inserting a list of (index, length) pairs into a table with \<open>add\<close>, in order.\<close>

definition insert_all :: "matches \<Rightarrow> (int64 \<times> int) list \<Rightarrow> matches" where
  "insert_all t es = foldl (\<lambda>t (idx, len). add t idx len) t es"

text \<open>
  The pairs due at one byte: for every detector, in order, that reports a match on byte
  \<open>b\<close> at chunk index \<open>i\<close>, the pair \<open>(ci + int64(i - L + 1), L)\<close> with \<open>L\<close> the length
  of its pattern. The pairs due in a chunk: those of byte \<open>0\<close>, then of byte \<open>1\<close>, and
  so on, each detector being in the state the first \<open>i\<close> bytes of the chunk left it in.
\<close>

definition byte_events ::
  "int64 \<Rightarrow> int \<Rightarrow> byte \<Rightarrow> sequenceDetector list \<Rightarrow> (int64 \<times> int) list" where
  "byte_events ci i b ms =
     concat (map (\<lambda>m. if reports m b
                       then [(ci + of_int (i - int (length (sequence m)) + 1),
                              int (length (sequence m)))]
                       else []) ms)"

definition events :: "int64 \<Rightarrow> byte list \<Rightarrow> sequenceDetector list \<Rightarrow> (int64 \<times> int) list" where
  "events ci inp ms =
     concat (map (\<lambda>i. byte_events ci (int i) (inp ! i) (map (\<lambda>m. run m (take i inp)) ms))
                 [0..<length inp])"

text \<open>
  Two tables merged with the rule of \<open>add\<close>: at an index present in both, the greater
  length.
\<close>

definition merge_longest :: "matches \<Rightarrow> matches \<Rightarrow> matches" where
  "merge_longest t1 t2 =
     (\<lambda>k. case t1 k of
             None \<Rightarrow> t2 k
           | Some a \<Rightarrow> (case t2 k of None \<Rightarrow> Some a | Some b \<Rightarrow> Some (max a b)))"

text \<open>The (index, length) pairs of a table, and the union of the pairs of several tables.\<close>

definition pairs :: "matches \<Rightarrow> (int64 \<times> int) set" where
  "pairs t = {(idx, len). t idx = Some len}"

definition pairs_union :: "matches list \<Rightarrow> (int64 \<times> int) set" where
  "pairs_union ts = \<Union> (set (map pairs ts))"

section \<open>Properties\<close>

declare findShift_inner.simps [simp del]
declare findShift_outer.simps [simp del]
declare writeByte.simps [simp del]

subsection \<open>Signed 64-bit arithmetic\<close>

lemma sint_add_of_int:
  fixes w :: int64
  assumes "- (2 ^ 63) \<le> sint w + n" and "sint w + n < 2 ^ 63"
  shows "sint (w + of_int n) = sint w + n"
proof -
  have "w + of_int n = of_int (sint w + n)" by simp
  then have "sint (w + of_int n) = signed_take_bit 63 (sint w + n)"
    by (simp only: signed_of_int) simp
  also have "\<dots> = sint w + n"
    using assms by (simp add: signed_take_bit_int_eq_self)
  finally show ?thesis .
qed

lemma sint_add_length:
  fixes w :: int64
  assumes "sint w + int n < 2 ^ 63"
  shows "sint (w + of_int (int n)) = sint w + int n"
proof -
  have "- (2 ^ 63) \<le> sint w" using sint_ge[of w] by simp
  then have "- (2 ^ 63) \<le> sint w + int n" by simp
  from sint_add_of_int[OF this assms] show ?thesis .
qed

subsection \<open>The match table\<close>

lemma add_lookup_same:
  "add m idx len idx = Some (case m idx of None \<Rightarrow> len | Some existing \<Rightarrow> max existing len)"
  by (simp add: add_def split: option.splits)

lemma add_lookup_other: "k \<noteq> idx \<Longrightarrow> add m idx len k = m k"
  by (simp add: add_def split: option.splits)

lemma add_commute: "add (add m i1 l1) i2 l2 = add (add m i2 l2) i1 l1"
proof (rule ext)
  fix k
  show "add (add m i1 l1) i2 l2 k = add (add m i2 l2) i1 l1 k"
  proof (cases "i1 = i2")
    case True
    then show ?thesis
      by (cases "k = i2") (simp_all add: add_lookup_same add_lookup_other max.left_commute
          max.commute split: option.splits)
  next
    case False
    then show ?thesis
      by (cases "k = i1"; cases "k = i2") (simp_all add: add_lookup_same add_lookup_other)
  qed
qed

text \<open>
  C8. \<open>add\<close> stores the length when the index is absent, replaces a stored length that
  is no greater, and leaves the table unchanged otherwise; the value at the index is the
  maximum of the stored and the new length; inserting \<open>(5, 2)\<close> then \<open>(5, 3)\<close>, or
  \<open>(5, 3)\<close> then \<open>(5, 2)\<close>, gives the table \<open>{5: 3}\<close>; and two insertions
  commute, so the result does not depend on their order.
\<close>

theorem add_keeps_longest:
  "add m idx len =
     (case m idx of
        None \<Rightarrow> m(idx \<mapsto> len)
      | Some existing \<Rightarrow> if existing \<le> len then m(idx \<mapsto> len) else m)
   \<and> add m idx len idx =
       Some (case m idx of None \<Rightarrow> len | Some existing \<Rightarrow> max existing len)
   \<and> add (add Map.empty 5 2) 5 3 = [5 \<mapsto> 3]
   \<and> add (add Map.empty 5 3) 5 2 = [5 \<mapsto> 3]
   \<and> add (add m i1 l1) i2 l2 = add (add m i2 l2) i1 l1"
proof -
  have "add m idx len =
     (case m idx of
        None \<Rightarrow> m(idx \<mapsto> len)
      | Some existing \<Rightarrow> if existing \<le> len then m(idx \<mapsto> len) else m)"
    by (rule ext) (auto simp: add_def split: option.splits)
  moreover have "add (add Map.empty 5 2) 5 3 = [5 \<mapsto> 3]"
    by (simp add: add_def)
  moreover have "add (add Map.empty 5 3) 5 2 = [5 \<mapsto> 3]"
    by (simp add: add_def)
  ultimately show ?thesis
    using add_lookup_same[of m idx len] add_commute[of m i1 l1 i2 l2] by simp
qed

subsection \<open>findShift\<close>

lemma index_in: "0 \<le> i \<Longrightarrow> i < int (length xs) \<Longrightarrow> index xs i = Inr (xs ! nat i)"
  by (simp add: index_def)

lemma findShift_inner_from:
  "0 \<le> i \<Longrightarrow> 0 \<le> offset \<Longrightarrow> c \<le> int (length s) \<Longrightarrow>
   findShift_inner s c offset i =
     Inr (\<forall>k. i \<le> k \<and> k < c - offset \<longrightarrow> s ! nat k = s ! nat (k + offset))"
proof (induction s c offset i rule: findShift_inner.induct)
  case (1 s c offset i)
  show ?case
  proof (cases "i < c - offset")
    case False
    then show ?thesis by (subst findShift_inner.simps) auto
  next
    case True
    with "1.prems" have ix: "index s i = Inr (s ! nat i)"
      "index s (i + offset) = Inr (s ! nat (i + offset))"
      by (simp_all add: index_in)
    show ?thesis
    proof (cases "s ! nat i = s ! nat (i + offset)")
      case False
      with True ix "1.prems" show ?thesis
        by (subst findShift_inner.simps) auto
    next
      case eq: True
      have "findShift_inner s c offset (i + 1) =
          Inr (\<forall>k. i + 1 \<le> k \<and> k < c - offset \<longrightarrow> s ! nat k = s ! nat (k + offset))"
        using "1.IH"[OF True ix(1) ix(2)] eq "1.prems" by simp
      moreover have "(\<forall>k. i + 1 \<le> k \<and> k < c - offset \<longrightarrow> s ! nat k = s ! nat (k + offset))
          = (\<forall>k. i \<le> k \<and> k < c - offset \<longrightarrow> s ! nat k = s ! nat (k + offset))"
      proof -
        have "\<And>k. i \<le> k \<longleftrightarrow> k = i \<or> i + 1 \<le> k" by auto
        with eq show ?thesis by metis
      qed
      ultimately show ?thesis using True ix eq
        by (subst findShift_inner.simps) simp
    qed
  qed
qed

lemma pointwise_overlap:
  assumes "0 \<le> offset" "offset \<le> c" "c \<le> int (length s)"
  shows "(\<forall>k. 0 \<le> k \<and> k < c - offset \<longrightarrow> s ! nat k = s ! nat (k + offset))
         \<longleftrightarrow> overlap s c offset"
proof -
  have len: "nat (c - offset) \<le> length s" "nat (c - offset) \<le> length s - nat offset"
    using assms by auto
  have "overlap s c offset \<longleftrightarrow> (\<forall>i < nat (c - offset). s ! i = s ! (nat offset + i))"
    using len by (simp add: overlap_def list_eq_iff_nth_eq min_absorb2)
  also have "\<dots> \<longleftrightarrow> (\<forall>k. 0 \<le> k \<and> k < c - offset \<longrightarrow> s ! nat k = s ! nat (k + offset))"
  proof
    assume h: "\<forall>i < nat (c - offset). s ! i = s ! (nat offset + i)"
    show "\<forall>k. 0 \<le> k \<and> k < c - offset \<longrightarrow> s ! nat k = s ! nat (k + offset)"
    proof (intro allI impI)
      fix k :: int assume k: "0 \<le> k \<and> k < c - offset"
      then have "nat k < nat (c - offset)" by simp
      with h have "s ! nat k = s ! (nat offset + nat k)" by blast
      moreover have "nat offset + nat k = nat (k + offset)"
        using k assms by (simp add: nat_add_distrib)
      ultimately show "s ! nat k = s ! nat (k + offset)" by simp
    qed
  next
    assume a: "\<forall>k. 0 \<le> k \<and> k < c - offset \<longrightarrow> s ! nat k = s ! nat (k + offset)"
    show "\<forall>i < nat (c - offset). s ! i = s ! (nat offset + i)"
    proof (intro allI impI)
      fix i :: nat assume "i < nat (c - offset)"
      then have "0 \<le> int i \<and> int i < c - offset" by simp
      with a have "s ! nat (int i) = s ! nat (int i + offset)" by blast
      moreover have "nat (int i + offset) = nat offset + i"
        using assms by (simp add: nat_add_distrib)
      ultimately show "s ! i = s ! (nat offset + i)" by simp
    qed
  qed
  finally show ?thesis by simp
qed

lemma findShift_inner_overlap:
  "0 \<le> offset \<Longrightarrow> offset \<le> c \<Longrightarrow> c \<le> int (length s) \<Longrightarrow>
   findShift_inner s c offset 0 = Inr (overlap s c offset)"
  by (simp add: findShift_inner_from pointwise_overlap)

lemma overlap_self: "overlap s c c"
  by (simp add: overlap_def)

lemma findShift_outer_found:
  "1 \<le> offset \<Longrightarrow> offset \<le> c \<Longrightarrow> c \<le> int (length s) \<Longrightarrow>
   \<exists>r. findShift_outer s c offset = Inr (Some r) \<and> offset \<le> r \<and> r \<le> c \<and> overlap s c r \<and>
       (\<forall>k. offset \<le> k \<and> k < r \<longrightarrow> \<not> overlap s c k)"
proof (induction s c offset rule: findShift_outer.induct)
  case (1 s c offset)
  have inner: "findShift_inner s c offset 0 = Inr (overlap s c offset)"
    using "1.prems" by (simp add: findShift_inner_overlap)
  show ?case
  proof (cases "overlap s c offset")
    case True
    with inner "1.prems" show ?thesis
      by (subst findShift_outer.simps) auto
  next
    case False
    then have "offset \<noteq> c" using overlap_self by auto
    with "1.prems" have lt: "offset + 1 \<le> c" by simp
    from "1.IH"[OF "1.prems"(2) inner False] lt "1.prems"
    obtain r where r: "findShift_outer s c (offset + 1) = Inr (Some r)" "offset + 1 \<le> r"
      "r \<le> c" "overlap s c r" "\<forall>k. offset + 1 \<le> k \<and> k < r \<longrightarrow> \<not> overlap s c k"
      by auto
    have "\<forall>k. offset \<le> k \<and> k < r \<longrightarrow> \<not> overlap s c k"
    proof (intro allI impI)
      fix k assume "offset \<le> k \<and> k < r"
      then have "k = offset \<or> (offset + 1 \<le> k \<and> k < r)" by auto
      with False r(5) show "\<not> overlap s c k" by auto
    qed
    with r inner False "1.prems" show ?thesis
      by (subst findShift_outer.simps) auto
  qed
qed

lemma findShift_outer_exhausted: "c < offset \<Longrightarrow> findShift_outer s c offset = Inr None"
  by (subst findShift_outer.simps) simp

lemma findShift_found:
  assumes "1 \<le> currentIndex m" "currentIndex m \<le> int (length (sequence m))"
  shows "\<exists>r. findShift_outer (sequence m) (currentIndex m) 1 = Inr (Some r) \<and>
            findShift m = Inr r \<and> 1 \<le> r \<and> r \<le> currentIndex m \<and>
            overlap (sequence m) (currentIndex m) r \<and>
            (\<forall>k. 1 \<le> k \<and> k < r \<longrightarrow> \<not> overlap (sequence m) (currentIndex m) k)"
proof -
  from findShift_outer_found[of 1 "currentIndex m" "sequence m"] assms
  obtain r where r: "findShift_outer (sequence m) (currentIndex m) 1 = Inr (Some r)"
    "1 \<le> r" "r \<le> currentIndex m" "overlap (sequence m) (currentIndex m) r"
    "\<forall>k. 1 \<le> k \<and> k < r \<longrightarrow> \<not> overlap (sequence m) (currentIndex m) k"
    by auto
  then show ?thesis by (simp add: findShift_def)
qed

lemma findShift_zero: "currentIndex m \<le> 0 \<Longrightarrow> findShift m = Inr (currentIndex m)"
  by (simp add: findShift_def findShift_outer_exhausted)

lemma findShift_wellformed:
  assumes "wellformed m"
  shows "\<exists>r. findShift m = Inr r \<and> 0 \<le> r \<and> r \<le> currentIndex m"
proof (cases "1 \<le> currentIndex m")
  case True
  with assms findShift_found[of m] show ?thesis
    by (auto simp: wellformed_def)
next
  case False
  with assms have "currentIndex m = 0" by (simp add: wellformed_def)
  then show ?thesis using findShift_zero[of m] by simp
qed

text \<open>
  C6. For a non-empty pattern and a cursor in \<open>[1, len(sequence))\<close>, \<open>findShift\<close>
  returns the smallest offset \<open>r\<close> with \<open>1 \<le> r \<le> cursor\<close> for which
  \<open>sequence[0 .. cursor - r)\<close> equals \<open>sequence[r .. cursor)\<close>; when no offset below
  the cursor qualifies, it returns the cursor itself.
\<close>

theorem findShift_smallest_overlap:
  assumes "sequence m \<noteq> []" and "1 \<le> currentIndex m"
    and "currentIndex m < int (length (sequence m))"
  shows "\<exists>r. findShift m = Inr r \<and> 1 \<le> r \<and> r \<le> currentIndex m \<and>
            overlap (sequence m) (currentIndex m) r \<and>
            (\<forall>k. 1 \<le> k \<and> k < r \<longrightarrow> \<not> overlap (sequence m) (currentIndex m) k) \<and>
            ((\<forall>k. 1 \<le> k \<and> k < currentIndex m \<longrightarrow> \<not> overlap (sequence m) (currentIndex m) k)
               \<longrightarrow> r = currentIndex m)"
proof -
  from findShift_found[of m] assms
  obtain r where r: "findShift m = Inr r" "1 \<le> r" "r \<le> currentIndex m"
    "overlap (sequence m) (currentIndex m) r"
    "\<forall>k. 1 \<le> k \<and> k < r \<longrightarrow> \<not> overlap (sequence m) (currentIndex m) k"
    by auto
  have "(\<forall>k. 1 \<le> k \<and> k < currentIndex m \<longrightarrow> \<not> overlap (sequence m) (currentIndex m) k)
          \<longrightarrow> r = currentIndex m"
  proof
    assume none: "\<forall>k. 1 \<le> k \<and> k < currentIndex m \<longrightarrow> \<not> overlap (sequence m) (currentIndex m) k"
    show "r = currentIndex m"
    proof (rule ccontr)
      assume "r \<noteq> currentIndex m"
      with r(2,3) have "1 \<le> r \<and> r < currentIndex m" by simp
      with none r(4) show False by blast
    qed
  qed
  with r show ?thesis by blast
qed

theorem findShift_smallest_overlap_witness:
  "sequence \<lparr>sequence = bytes ''foofoobar'', currentIndex = 6\<rparr> \<noteq> []
   \<and> findShift \<lparr>sequence = bytes ''foofoobar'', currentIndex = 6\<rparr> = Inr 3
   \<and> overlap (bytes ''foofoobar'') 6 3
   \<and> \<not> overlap (bytes ''foofoobar'') 6 1
   \<and> \<not> overlap (bytes ''foofoobar'') 6 2"
proof -
  let ?m = "\<lparr>sequence = bytes ''foofoobar'', currentIndex = 6\<rparr>"
  have ov: "overlap (bytes ''foofoobar'') 6 3" "\<not> overlap (bytes ''foofoobar'') 6 1"
    "\<not> overlap (bytes ''foofoobar'') 6 2"
    by (simp_all add: overlap_def bytes_def)
  have h: "sequence ?m \<noteq> []" "1 \<le> currentIndex ?m"
    "currentIndex ?m < int (length (sequence ?m))"
    by (simp_all add: bytes_def)
  from findShift_smallest_overlap[OF h]
  obtain r where r: "findShift ?m = Inr r" "1 \<le> r" "r \<le> 6"
    "overlap (bytes ''foofoobar'') 6 r"
    "\<forall>k. 1 \<le> k \<and> k < r \<longrightarrow> \<not> overlap (bytes ''foofoobar'') 6 k"
    by auto
  from r(5) ov(1) have "\<not> 3 < r" by auto
  moreover from r(2) r(4) ov(2,3) have "r \<noteq> 1 \<and> r \<noteq> 2" by auto
  ultimately have "r = 3" using r(2) by arith
  with r(1) ov h(1) show ?thesis by simp
qed

subsection \<open>writeByte\<close>

lemma writeByte_match:
  assumes "wellformed m" "sequence m ! nat (currentIndex m) = b"
  shows "writeByte m b = Inr (advance m)"
  using assms
  by (subst writeByte.simps) (simp add: wellformed_def index_in advance_def Let_def)

lemma writeByte_unfold:
  assumes wf: "wellformed m" and fs: "findShift m = Inr r"
  shows "writeByte m b =
     Inr (if sequence m ! nat (currentIndex m) = b then advance m
          else if sequence m ! nat (currentIndex m - r) = b
               then advance (m\<lparr>currentIndex := currentIndex m - r\<rparr>)
               else (False, m\<lparr>currentIndex := currentIndex m - r\<rparr>))"
proof (cases "sequence m ! nat (currentIndex m) = b")
  case True
  with wf show ?thesis by (simp add: writeByte_match)
next
  case False
  from findShift_wellformed[OF wf] fs have r: "0 \<le> r" "r \<le> currentIndex m" by auto
  let ?m2 = "m\<lparr>currentIndex := currentIndex m - r\<rparr>"
  have wf2: "wellformed ?m2" using wf r by (simp add: wellformed_def)
  have ix: "index (sequence m) (currentIndex m) = Inr (sequence m ! nat (currentIndex m))"
    "index (sequence m) (currentIndex m - r) = Inr (sequence m ! nat (currentIndex m - r))"
    using wf r by (simp_all add: wellformed_def index_in)
  show ?thesis
  proof (cases "sequence m ! nat (currentIndex m - r) = b")
    case True
    then have "writeByte ?m2 b = Inr (advance ?m2)"
      using wf2 by (simp add: writeByte_match)
    with False True ix fs show ?thesis
      by (subst writeByte.simps) (simp add: Let_def)
  next
    case F2: False
    with False ix fs show ?thesis
      by (subst writeByte.simps) (simp add: Let_def)
  qed
qed

lemma advance_wellformed:
  "wellformed m \<Longrightarrow> wellformed (snd (advance m)) \<and> sequence (snd (advance m)) = sequence m"
  by (auto simp: wellformed_def advance_def Let_def)

lemma writeByte_wellformed:
  assumes "wellformed m"
  shows "writeByte m b = Inr (reports m b, after m b) \<and> wellformed (after m b) \<and>
         sequence (after m b) = sequence m"
proof -
  from findShift_wellformed[OF assms] obtain r where
    r: "findShift m = Inr r" "0 \<le> r" "r \<le> currentIndex m" by auto
  let ?m2 = "m\<lparr>currentIndex := currentIndex m - r\<rparr>"
  have wf2: "wellformed ?m2" using assms r by (simp add: wellformed_def)
  note u = writeByte_unfold[OF assms r(1), of b]
  have "wellformed (after m b) \<and> sequence (after m b) = sequence m"
    using advance_wellformed[OF assms] advance_wellformed[OF wf2] wf2
    by (simp add: after_def u case_prod_beta)
  moreover have "writeByte m b = Inr (reports m b, after m b)"
    by (simp add: reports_def after_def u case_prod_beta)
  ultimately show ?thesis by simp
qed

text \<open>
  C10. For a non-empty pattern and a cursor in \<open>[1, len(sequence))\<close> the search loop
  of \<open>findShift\<close> returns from inside the loop, at an offset in \<open>[1, cursor]\<close> (the
  comparison at \<open>offset = cursor\<close> passes with no byte compared), so a mismatch in
  \<open>writeByte\<close> lowers the cursor strictly before the retry check, and the retry is the
  match step alone. For a well-formed detector the loop runs out, and the fallback
  \<open>return m.currentIndex\<close> is taken, exactly when the cursor is \<open>0\<close>.
\<close>

theorem findShift_loop_succeeds:
  assumes "sequence m \<noteq> []" and "1 \<le> currentIndex m"
    and "currentIndex m < int (length (sequence m))"
  shows "\<exists>r. findShift_outer (sequence m) (currentIndex m) 1 = Inr (Some r) \<and>
            findShift m = Inr r \<and> 1 \<le> r \<and> r \<le> currentIndex m \<and>
            findShift_inner (sequence m) (currentIndex m) (currentIndex m) 0 = Inr True \<and>
            (sequence m ! nat (currentIndex m) \<noteq> b \<longrightarrow>
               currentIndex m - r < currentIndex m \<and>
               writeByte m b =
                 Inr (if sequence m ! nat (currentIndex m - r) = b
                      then advance (m\<lparr>currentIndex := currentIndex m - r\<rparr>)
                      else (False, m\<lparr>currentIndex := currentIndex m - r\<rparr>))) \<and>
            (wellformed m0 \<longrightarrow>
               (findShift_outer (sequence m0) (currentIndex m0) 1 = Inr None
                  \<longleftrightarrow> currentIndex m0 = 0))"
proof -
  have wf: "wellformed m" using assms by (simp add: wellformed_def)
  from findShift_found[of m] assms
  obtain r where r: "findShift_outer (sequence m) (currentIndex m) 1 = Inr (Some r)"
    "findShift m = Inr r" "1 \<le> r" "r \<le> currentIndex m"
    by auto
  have vac: "findShift_inner (sequence m) (currentIndex m) (currentIndex m) 0 = Inr True"
    using assms by (simp add: findShift_inner_overlap overlap_self)
  have mis: "sequence m ! nat (currentIndex m) \<noteq> b \<longrightarrow>
               currentIndex m - r < currentIndex m \<and>
               writeByte m b =
                 Inr (if sequence m ! nat (currentIndex m - r) = b
                      then advance (m\<lparr>currentIndex := currentIndex m - r\<rparr>)
                      else (False, m\<lparr>currentIndex := currentIndex m - r\<rparr>))"
    using r(3) writeByte_unfold[OF wf r(2), of b] by simp
  have fb: "wellformed m0 \<longrightarrow>
               (findShift_outer (sequence m0) (currentIndex m0) 1 = Inr None
                  \<longleftrightarrow> currentIndex m0 = 0)"
  proof
    assume wf0: "wellformed m0"
    show "findShift_outer (sequence m0) (currentIndex m0) 1 = Inr None
            \<longleftrightarrow> currentIndex m0 = 0"
    proof (cases "1 \<le> currentIndex m0")
      case True
      with wf0 findShift_found[of m0] show ?thesis
        by (auto simp: wellformed_def)
    next
      case False
      with wf0 have "currentIndex m0 = 0" by (simp add: wellformed_def)
      then show ?thesis by (simp add: findShift_outer_exhausted)
    qed
  qed
  from r vac mis fb show ?thesis by blast
qed

theorem findShift_loop_succeeds_witness:
  "sequence \<lparr>sequence = bytes ''foofoobar'', currentIndex = 6\<rparr> \<noteq> []
   \<and> findShift_outer (bytes ''foofoobar'') 6 1 = Inr (Some 3)
   \<and> findShift_inner (bytes ''foofoobar'') 6 6 0 = Inr True
   \<and> writeByte \<lparr>sequence = bytes ''foofoobar'', currentIndex = 6\<rparr> (of_char CHR ''f'')
       = Inr (False, \<lparr>sequence = bytes ''foofoobar'', currentIndex = 4\<rparr>)
   \<and> findShift_outer (bytes ''foofoobar'') 0 1 = Inr None"
proof -
  let ?m = "\<lparr>sequence = bytes ''foofoobar'', currentIndex = 6\<rparr>"
  let ?z = "\<lparr>sequence = bytes ''foofoobar'', currentIndex = 0\<rparr>"
  let ?b = "of_char CHR ''f'' :: byte"
  have h: "sequence ?m \<noteq> []" "1 \<le> currentIndex ?m"
    "currentIndex ?m < int (length (sequence ?m))"
    by (simp_all add: bytes_def)
  have wf0: "wellformed ?z" by (simp add: wellformed_def bytes_def)
  have fs: "findShift ?m = Inr 3"
    by (simp add: findShift_def findShift_outer.simps findShift_inner.simps index_def bytes_def)
  have mm: "sequence ?m ! nat (currentIndex ?m) \<noteq> ?b"
    by (simp add: bytes_def)
  from findShift_loop_succeeds[OF h, of ?b ?z]
  obtain r where r: "findShift_outer (sequence ?m) (currentIndex ?m) 1 = Inr (Some r)"
    "findShift ?m = Inr r"
    "findShift_inner (sequence ?m) (currentIndex ?m) (currentIndex ?m) 0 = Inr True"
    "sequence ?m ! nat (currentIndex ?m) \<noteq> ?b \<longrightarrow>
       writeByte ?m ?b =
         Inr (if sequence ?m ! nat (currentIndex ?m - r) = ?b
              then advance (?m\<lparr>currentIndex := currentIndex ?m - r\<rparr>)
              else (False, ?m\<lparr>currentIndex := currentIndex ?m - r\<rparr>))"
    "wellformed ?z \<longrightarrow>
       (findShift_outer (sequence ?z) (currentIndex ?z) 1 = Inr None
          \<longleftrightarrow> currentIndex ?z = 0)"
    by blast
  from r(2) fs have r3: "r = 3" by simp
  from r(1) r3 have "findShift_outer (bytes ''foofoobar'') 6 1 = Inr (Some 3)" by simp
  moreover from r(3) have "findShift_inner (bytes ''foofoobar'') 6 6 0 = Inr True" by simp
  moreover from r(4) mm r3 have "writeByte ?m ?b =
           Inr (if sequence ?m ! nat (currentIndex ?m - 3) = ?b
                then advance (?m\<lparr>currentIndex := currentIndex ?m - 3\<rparr>)
                else (False, ?m\<lparr>currentIndex := currentIndex ?m - 3\<rparr>))"
    by blast
  moreover from r(5) wf0 have "findShift_outer (bytes ''foofoobar'') 0 1 = Inr None" by simp
  ultimately have "findShift_outer (bytes ''foofoobar'') 6 1 = Inr (Some 3)"
    and "findShift_inner (bytes ''foofoobar'') 6 6 0 = Inr True"
    and "writeByte ?m ?b =
           Inr (if sequence ?m ! nat (currentIndex ?m - 3) = ?b
                then advance (?m\<lparr>currentIndex := currentIndex ?m - 3\<rparr>)
                else (False, ?m\<lparr>currentIndex := currentIndex ?m - 3\<rparr>))"
    and "findShift_outer (bytes ''foofoobar'') 0 1 = Inr None"
    by simp_all
  then show ?thesis
    using h(1) by (simp add: advance_def bytes_def)
qed

subsection \<open>Detectors fed a byte sequence\<close>

lemma run_Nil: "run m [] = m"
  by (simp add: run_def)

lemma run_Cons: "run m (b # bs) = run (after m b) bs"
  by (simp add: run_def)

lemma run_wellformed:
  "wellformed m \<Longrightarrow> wellformed (run m bs) \<and> sequence (run m bs) = sequence m"
  unfolding run_def
  by (induction bs arbitrary: m) (simp_all add: writeByte_wellformed)

subsection \<open>Tables built by insertion and by merging\<close>

lemma insert_all_Nil: "insert_all t [] = t"
  by (simp add: insert_all_def)

lemma insert_all_append: "insert_all t (xs @ ys) = insert_all (insert_all t xs) ys"
  by (simp add: insert_all_def)

lemma insert_all_snoc: "insert_all t (es @ [(idx, len)]) = add (insert_all t es) idx len"
  by (simp add: insert_all_def)

lemma add_Some_cases: "add t idx len k = Some x \<Longrightarrow> t k = Some x \<or> (k = idx \<and> x = len)"
  by (auto simp: add_def split: option.splits if_splits)

lemma add_keeps: "t k = Some x \<Longrightarrow> \<exists>y. add t idx len k = Some y \<and> x \<le> y"
  by (auto simp: add_def split: option.splits)

lemma add_holds: "\<exists>y. add t idx len idx = Some y \<and> len \<le> y"
  by (auto simp: add_def split: option.splits)

lemma insert_all_only:
  "insert_all t es k = Some x \<Longrightarrow> t k = Some x \<or> (k, x) \<in> set es"
proof (induction es arbitrary: x rule: rev_induct)
  case Nil
  then show ?case by (simp add: insert_all_Nil)
next
  case (snoc e es)
  obtain idx len where e: "e = (idx, len)" by (cases e)
  from snoc.prems e have "add (insert_all t es) idx len k = Some x"
    by (simp add: insert_all_snoc)
  then have "insert_all t es k = Some x \<or> (k = idx \<and> x = len)"
    by (rule add_Some_cases)
  with snoc.IH e show ?case by auto
qed

lemma insert_all_keeps:
  "t k = Some x \<Longrightarrow> \<exists>y. insert_all t es k = Some y \<and> x \<le> y"
proof (induction es rule: rev_induct)
  case Nil
  then show ?case by (simp add: insert_all_Nil)
next
  case (snoc e es)
  obtain idx len where e: "e = (idx, len)" by (cases e)
  from snoc obtain y where y: "insert_all t es k = Some y" "x \<le> y" by blast
  from add_keeps[of "insert_all t es" k y idx len] y(1) obtain z
    where "add (insert_all t es) idx len k = Some z" "y \<le> z" by blast
  with y(2) e show ?case by (auto simp: insert_all_snoc)
qed

lemma insert_all_holds:
  "(k, x) \<in> set es \<Longrightarrow> \<exists>y. insert_all t es k = Some y \<and> x \<le> y"
proof (induction es rule: rev_induct)
  case Nil
  then show ?case by simp
next
  case (snoc e es)
  obtain idx len where e: "e = (idx, len)" by (cases e)
  show ?case
  proof (cases "(k, x) = e")
    case True
    with e add_holds[of "insert_all t es" idx len] show ?thesis
      by (auto simp: insert_all_snoc)
  next
    case False
    with snoc obtain y where y: "insert_all t es k = Some y" "x \<le> y" by auto
    from add_keeps[of "insert_all t es" k y idx len] y(1) obtain z
      where "add (insert_all t es) idx len k = Some z" "y \<le> z" by blast
    with y(2) e show ?thesis by (auto simp: insert_all_snoc)
  qed
qed

lemma merge_longest_empty_left: "merge_longest Map.empty t = t"
  by (simp add: merge_longest_def)

lemma merge_longest_empty_right: "merge_longest t Map.empty = t"
  by (rule ext) (simp add: merge_longest_def split: option.splits)

lemma merge_longest_assoc:
  "merge_longest (merge_longest a b) c = merge_longest a (merge_longest b c)"
  by (rule ext) (simp add: merge_longest_def max.assoc split: option.splits)

lemma add_merge_longest: "add t idx len = merge_longest t [idx \<mapsto> len]"
  by (rule ext) (auto simp: add_def merge_longest_def split: option.splits)

lemma add_merge_longest_right:
  "add (merge_longest t u) idx len = merge_longest t (add u idx len)"
  by (simp add: add_merge_longest[of "merge_longest t u"] add_merge_longest[of u]
      merge_longest_assoc)

lemma foldl_merge_longest:
  "foldl merge_longest t ts = merge_longest t (foldl merge_longest Map.empty ts)"
proof (induction ts arbitrary: t)
  case Nil
  show ?case by (simp add: merge_longest_empty_right)
next
  case (Cons u us)
  show ?case
    using Cons.IH[of "merge_longest t u"] Cons.IH[of u]
    by (simp add: merge_longest_empty_left merge_longest_assoc)
qed

lemma merge_longest_Some_cases:
  "merge_longest t u k = Some x \<Longrightarrow> t k = Some x \<or> u k = Some x"
  by (auto simp: merge_longest_def max_def split: option.splits if_splits)

lemma merge_longest_keeps_left:
  "t k = Some x \<Longrightarrow> \<exists>y. merge_longest t u k = Some y \<and> x \<le> y"
  by (auto simp: merge_longest_def split: option.splits)

lemma merge_longest_keeps_right:
  "u k = Some x \<Longrightarrow> \<exists>y. merge_longest t u k = Some y \<and> x \<le> y"
  by (auto simp: merge_longest_def split: option.splits)

lemma pairs_union_Nil: "pairs_union [] = {}"
  by (simp add: pairs_union_def)

lemma pairs_union_Cons: "pairs_union (t # ts) = pairs t \<union> pairs_union ts"
  by (simp add: pairs_union_def)

lemma pairs_iff: "(k, x) \<in> pairs t \<longleftrightarrow> t k = Some x"
  by (simp add: pairs_def)

lemma merged_subset_union:
  "foldl merge_longest Map.empty ts k = Some x \<Longrightarrow> (k, x) \<in> pairs_union ts"
proof (induction ts arbitrary: x)
  case Nil
  then show ?case by simp
next
  case (Cons u us)
  from Cons.prems have "merge_longest u (foldl merge_longest Map.empty us) k = Some x"
    using foldl_merge_longest[of u us] by (simp add: merge_longest_empty_left)
  then have "u k = Some x \<or> foldl merge_longest Map.empty us k = Some x"
    by (rule merge_longest_Some_cases)
  with Cons.IH show ?case by (auto simp: pairs_union_Cons pairs_iff)
qed

lemma union_covered_by_merged:
  "(k, x) \<in> pairs_union ts \<Longrightarrow> \<exists>y. foldl merge_longest Map.empty ts k = Some y \<and> x \<le> y"
proof (induction ts)
  case Nil
  then show ?case by (simp add: pairs_union_Nil)
next
  case (Cons u us)
  have f: "foldl merge_longest Map.empty (u # us) =
           merge_longest u (foldl merge_longest Map.empty us)"
    using foldl_merge_longest[of u us] by (simp add: merge_longest_empty_left)
  from Cons.prems have "u k = Some x \<or> (k, x) \<in> pairs_union us"
    by (auto simp: pairs_union_Cons pairs_iff)
  then show ?case
  proof
    assume "u k = Some x"
    with merge_longest_keeps_left[of u k x "foldl merge_longest Map.empty us"] f
    show ?thesis by simp
  next
    assume "(k, x) \<in> pairs_union us"
    with Cons.IH obtain y where y: "foldl merge_longest Map.empty us k = Some y" "x \<le> y"
      by blast
    from merge_longest_keeps_right[of "foldl merge_longest Map.empty us" k y u] y(1) obtain z
      where "merge_longest u (foldl merge_longest Map.empty us) k = Some z" "y \<le> z" by blast
    with y(2) f show ?thesis by auto
  qed
qed

subsection \<open>write on well-formed detectors\<close>

lemma byte_events_Nil: "byte_events ci i b [] = []"
  by (simp add: byte_events_def)

lemma byte_events_Cons:
  "byte_events ci i b (m # ms) =
     (if reports m b
      then [(ci + of_int (i - int (length (sequence m)) + 1), int (length (sequence m)))]
      else [])
     @ byte_events ci i b ms"
  by (simp add: byte_events_def)

lemma byte_events_shift: "byte_events (ci + of_int k) i b ms = byte_events ci (i + k) b ms"
  by (simp add: byte_events_def algebra_simps cong: if_cong)

lemma write_matchers_wellformed:
  "list_all wellformed ms \<Longrightarrow>
   write_matchers ci i b ms res =
     Inr (insert_all res (byte_events ci i b ms), map (\<lambda>m. after m b) ms)"
proof (induction ms arbitrary: res)
  case Nil
  show ?case by (simp add: insert_all_Nil byte_events_Nil)
next
  case (Cons m ms)
  then have wf: "wellformed m" and rest: "list_all wellformed ms" by simp_all
  note w = writeByte_wellformed[OF wf, of b]
  show ?case
    using Cons.IH[OF rest] w
    by (simp add: byte_events_Cons insert_all_def)
qed

lemma events_Nil: "events ci [] ms = []"
  by (simp add: events_def)

lemma events_Cons:
  "events ci (b # bs) ms = byte_events ci 0 b ms @ events (ci + 1) bs (map (\<lambda>m. after m b) ms)"
proof -
  have up: "[0..<length (b # bs)] = 0 # map Suc [0..<length bs]"
    by (simp add: upt_conv_Cons map_Suc_upt del: upt_Suc)
  have sh: "\<And>i x ns. byte_events ci (1 + int i) x ns = byte_events (ci + 1) (int i) x ns"
    by (simp add: byte_events_def algebra_simps cong: if_cong)
  show ?thesis
    unfolding events_def up
    by (simp add: run_Nil run_Cons sh comp_def del: upt_Suc)
qed

lemma write_bytes_wellformed:
  "list_all wellformed ms \<Longrightarrow>
   write_bytes ci i bs ms res =
     Inr (insert_all res (events (ci + of_int i) bs ms), map (\<lambda>m. run m bs) ms)"
proof (induction bs arbitrary: i ms res)
  case Nil
  show ?case by (simp add: events_Nil insert_all_Nil run_Nil)
next
  case (Cons b bs)
  let ?ms' = "map (\<lambda>m. after m b) ms"
  have wf': "list_all wellformed ?ms'"
    using Cons.prems by (simp add: list_all_iff writeByte_wellformed)
  have be: "byte_events (ci + of_int i) 0 b ms = byte_events ci i b ms"
    by (simp add: byte_events_shift)
  show ?case
    using Cons.IH[OF wf', of "i + 1"] write_matchers_wellformed[OF Cons.prems, of ci i b res]
    by (simp add: events_Cons insert_all_append be run_Cons comp_def add.assoc)
qed

lemma write_wellformed:
  assumes "list_all wellformed (matchers mb)"
  shows "write mb inp =
     Inr (insert_all Map.empty (events (currentIndex_mb mb) inp (matchers mb)),
          \<lparr>matchers = map (\<lambda>m. run m inp) (matchers mb),
           currentIndex_mb = currentIndex_mb mb + of_int (int (length inp))\<rparr>)"
  using write_bytes_wellformed[OF assms, of "currentIndex_mb mb" 0 inp Map.empty]
  by (simp add: write_def)

lemma write_Nil: "write mb [] = Inr (Map.empty, mb)"
  by (simp add: write_def)

lemma write_keeps_wellformed:
  assumes "list_all wellformed (matchers mb)"
  shows "\<exists>t mb'. write mb inp = Inr (t, mb') \<and> list_all wellformed (matchers mb')"
  using write_wellformed[OF assms, of inp] assms
  by (simp add: list_all_iff run_wellformed)

lemma byte_events_set:
  "(idx, len) \<in> set (byte_events ci i b ms) \<longleftrightarrow>
     (\<exists>m \<in> set ms. reports m b \<and> len = int (length (sequence m)) \<and>
                   idx = ci + of_int (i - len + 1))"
  by (auto simp: byte_events_def split: if_splits)

lemma events_set:
  assumes "list_all wellformed ms"
  shows "(idx, len) \<in> set (events ci inp ms) \<longleftrightarrow>
     (\<exists>i < length inp. \<exists>m \<in> set ms.
        reports (run m (take i inp)) (inp ! i) \<and> len = int (length (sequence m)) \<and>
        idx = ci + of_int (int i - len + 1))"
proof -
  have seq: "\<And>m bs. m \<in> set ms \<Longrightarrow> sequence (run m bs) = sequence m"
    using assms by (simp add: list_all_iff run_wellformed)
  have "(idx, len) \<in> set (events ci inp ms) \<longleftrightarrow>
     (\<exists>i < length inp. (idx, len) \<in>
         set (byte_events ci (int i) (inp ! i) (map (\<lambda>m. run m (take i inp)) ms)))"
    by (auto simp: events_def)
  also have "\<dots> \<longleftrightarrow>
     (\<exists>i < length inp. \<exists>m \<in> set ms.
        reports (run m (take i inp)) (inp ! i) \<and> len = int (length (sequence m)) \<and>
        idx = ci + of_int (int i - len + 1))"
    by (auto simp: byte_events_set seq)
  finally show ?thesis .
qed

text \<open>
  C5. \<open>writeByte\<close> is defined by recursion whose termination is proved for every
  argument. On a detector with a non-empty pattern and cursor in \<open>[0, len(sequence))\<close>
  and any byte, \<open>findShift\<close> and \<open>writeByte\<close> return without an index out of range;
  the result of \<open>writeByte\<close> is the match step on the detector itself, or else, after
  the shift, one match step on the shifted detector, or else \<open>false\<close> with the shifted
  detector: at most one retry. The detector returned has the same pattern and a cursor in
  range again. Hence \<open>write\<close> returns for every chunk on a matcher whose detectors are
  all of this kind, and leaves them so; on the empty chunk it returns for every matcher.
\<close>

theorem writeByte_total:
  "(wellformed m \<longrightarrow>
      (\<exists>r match m'.
         findShift m = Inr r \<and> 0 \<le> r \<and> r \<le> currentIndex m \<and>
         writeByte m b = Inr (match, m') \<and>
         (match, m') =
           (if sequence m ! nat (currentIndex m) = b then advance m
            else if sequence m ! nat (currentIndex m - r) = b
                 then advance (m\<lparr>currentIndex := currentIndex m - r\<rparr>)
                 else (False, m\<lparr>currentIndex := currentIndex m - r\<rparr>)) \<and>
         wellformed m' \<and> sequence m' = sequence m))
   \<and> (list_all wellformed (matchers mb) \<longrightarrow>
        (\<exists>t mb'. write mb inp = Inr (t, mb') \<and> list_all wellformed (matchers mb')))
   \<and> write mb [] = Inr (Map.empty, mb)"
proof -
  have det: "wellformed m \<longrightarrow>
      (\<exists>r match m'.
         findShift m = Inr r \<and> 0 \<le> r \<and> r \<le> currentIndex m \<and>
         writeByte m b = Inr (match, m') \<and>
         (match, m') =
           (if sequence m ! nat (currentIndex m) = b then advance m
            else if sequence m ! nat (currentIndex m - r) = b
                 then advance (m\<lparr>currentIndex := currentIndex m - r\<rparr>)
                 else (False, m\<lparr>currentIndex := currentIndex m - r\<rparr>)) \<and>
         wellformed m' \<and> sequence m' = sequence m)"
  proof
    assume wf: "wellformed m"
    from findShift_wellformed[OF wf] obtain r where
      r: "findShift m = Inr r" "0 \<le> r" "r \<le> currentIndex m" by auto
    note u = writeByte_unfold[OF wf r(1), of b]
    note w = writeByte_wellformed[OF wf, of b]
    from u w have "(reports m b, after m b) =
           (if sequence m ! nat (currentIndex m) = b then advance m
            else if sequence m ! nat (currentIndex m - r) = b
                 then advance (m\<lparr>currentIndex := currentIndex m - r\<rparr>)
                 else (False, m\<lparr>currentIndex := currentIndex m - r\<rparr>))"
      by simp
    with r w show "\<exists>r match m'.
         findShift m = Inr r \<and> 0 \<le> r \<and> r \<le> currentIndex m \<and>
         writeByte m b = Inr (match, m') \<and>
         (match, m') =
           (if sequence m ! nat (currentIndex m) = b then advance m
            else if sequence m ! nat (currentIndex m - r) = b
                 then advance (m\<lparr>currentIndex := currentIndex m - r\<rparr>)
                 else (False, m\<lparr>currentIndex := currentIndex m - r\<rparr>)) \<and>
         wellformed m' \<and> sequence m' = sequence m"
      by blast
  qed
  have mat: "list_all wellformed (matchers mb) \<longrightarrow>
        (\<exists>t mb'. write mb inp = Inr (t, mb') \<and> list_all wellformed (matchers mb'))"
    using write_keeps_wellformed[of mb inp] by blast
  from det mat write_Nil[of mb] show ?thesis by blast
qed

theorem writeByte_total_witness:
  "wellformed \<lparr>sequence = bytes ''foofoobar'', currentIndex = 6\<rparr>
   \<and> writeByte \<lparr>sequence = bytes ''foofoobar'', currentIndex = 6\<rparr> (of_char CHR ''f'')
       = Inr (False, \<lparr>sequence = bytes ''foofoobar'', currentIndex = 4\<rparr>)
   \<and> list_all wellformed (matchers (newMatcher [bytes ''ab'']))
   \<and> write (newMatcher [bytes ''ab'']) (bytes ''xab'')
       = Inr ([1 \<mapsto> 2],
              \<lparr>matchers = [\<lparr>sequence = bytes ''ab'', currentIndex = 0\<rparr>], currentIndex_mb = 3\<rparr>)"
proof -
  let ?m = "\<lparr>sequence = bytes ''foofoobar'', currentIndex = 6\<rparr>"
  let ?b = "of_char CHR ''f'' :: byte"
  let ?mb = "newMatcher [bytes ''ab'']"
  have wf: "wellformed ?m" by (simp add: wellformed_def bytes_def)
  have wfs: "list_all wellformed (matchers ?mb)"
    by (simp add: newMatcher_def wellformed_def bytes_def)
  have fs: "findShift ?m = Inr 3"
    by (simp add: findShift_def findShift_outer.simps findShift_inner.simps index_def bytes_def)
  have ev: "write ?mb (bytes ''xab'') = Inr ([1 \<mapsto> 2],
              \<lparr>matchers = [\<lparr>sequence = bytes ''ab'', currentIndex = 0\<rparr>], currentIndex_mb = 3\<rparr>)"
    by (simp add: write_def newMatcher_def add_def writeByte.simps findShift_def
        findShift_outer.simps findShift_inner.simps index_def bytes_def)
  from writeByte_total[of ?m ?b ?mb "bytes ''xab''"] wf
  obtain r match m' where r: "findShift ?m = Inr r" "writeByte ?m ?b = Inr (match, m')"
    "(match, m') =
       (if sequence ?m ! nat (currentIndex ?m) = ?b then advance ?m
        else if sequence ?m ! nat (currentIndex ?m - r) = ?b
             then advance (?m\<lparr>currentIndex := currentIndex ?m - r\<rparr>)
             else (False, ?m\<lparr>currentIndex := currentIndex ?m - r\<rparr>))"
    by blast
  from r(1) fs have "r = 3" by simp
  with r(2,3) have "writeByte ?m ?b = Inr (False, \<lparr>sequence = bytes ''foofoobar'', currentIndex = 4\<rparr>)"
    by (simp add: advance_def bytes_def)
  with wf wfs ev show ?thesis by simp
qed

text \<open>
  C4, as stated, fails: with the patterns \<open>a\<close> and \<open>ab\<close>, the single call
  \<open>write(ab)\<close> inserts the pair \<open>(0, 1)\<close> at byte \<open>0\<close> and the pair \<open>(0, 2)\<close> at
  byte \<open>1\<close>, and returns the table \<open>{0: 2}\<close>, which does not contain the inserted
  pair \<open>(0, 1)\<close>.
\<close>

theorem write_superseded_pair_counterexample:
  "events 0 (bytes ''ab'') (matchers (newMatcher [bytes ''a'', bytes ''ab''])) = [(0, 1), (0, 2)]
   \<and> write (newMatcher [bytes ''a'', bytes ''ab'']) (bytes ''ab'')
       = Inr ([0 \<mapsto> 2],
              \<lparr>matchers = [\<lparr>sequence = bytes ''a'', currentIndex = 0\<rparr>,
                           \<lparr>sequence = bytes ''ab'', currentIndex = 0\<rparr>],
               currentIndex_mb = 2\<rparr>)
   \<and> (0, 1) \<notin> pairs [0 \<mapsto> 2]"
proof -
  have "(0, 1) \<notin> pairs [0 \<mapsto> 2]"
    by (simp add: pairs_def)
  moreover have
    "events 0 (bytes ''ab'') (matchers (newMatcher [bytes ''a'', bytes ''ab''])) = [(0, 1), (0, 2)]"
    by (simp add: events_def byte_events_def reports_def run_def after_def newMatcher_def
        writeByte.simps findShift_def findShift_outer.simps findShift_inner.simps index_def
        bytes_def)
  moreover have "write (newMatcher [bytes ''a'', bytes ''ab'']) (bytes ''ab'')
       = Inr ([0 \<mapsto> 2],
              \<lparr>matchers = [\<lparr>sequence = bytes ''a'', currentIndex = 0\<rparr>,
                           \<lparr>sequence = bytes ''ab'', currentIndex = 0\<rparr>],
               currentIndex_mb = 2\<rparr>)"
    by (simp add: write_def newMatcher_def add_def writeByte.simps findShift_def
        findShift_outer.simps findShift_inner.simps index_def bytes_def)
  ultimately show ?thesis by blast
qed

text \<open>
  C4, amended. Take a matcher whose detectors are well-formed, with patterns shorter than
  \<open>2 ^ 63\<close> bytes (as every Go slice is), whose \<open>currentIndex\<close> is not negative
  and stays below \<open>2 ^ 63\<close> through the call. Then \<open>write\<close> returns the table
  obtained by inserting with \<open>add\<close>, into the empty table and in order, exactly the
  pairs due in this chunk, and advances \<open>currentIndex\<close> by the length of the chunk.
  A pair \<open>(idx, len)\<close> is due precisely when some detector with pattern length
  \<open>len\<close>, in the state the first \<open>i\<close> bytes of the chunk left it in, reports a match
  on byte \<open>i\<close>, and \<open>idx = currentIndex + i - len + 1\<close> (which may lie before the
  start of the chunk), with no wrap-around. Every entry of the returned table is one of
  these pairs, and every one of these pairs is an entry of the table unless a pair with
  the same index and a greater length is due in the same call, which is then the entry.
  Nothing of an earlier call enters the table.
\<close>

theorem write_inserts_events:
  assumes "list_all wellformed (matchers mb)"
    and "list_all (\<lambda>m. int (length (sequence m)) < 2 ^ 63) (matchers mb)"
    and "0 \<le> sint (currentIndex_mb mb)"
    and "sint (currentIndex_mb mb) + int (length inp) < 2 ^ 63"
  shows "write mb inp =
           Inr (insert_all Map.empty (events (currentIndex_mb mb) inp (matchers mb)),
                \<lparr>matchers = map (\<lambda>m. run m inp) (matchers mb),
                 currentIndex_mb = currentIndex_mb mb + of_int (int (length inp))\<rparr>)
         \<and> sint (currentIndex_mb mb + of_int (int (length inp)))
             = sint (currentIndex_mb mb) + int (length inp)
         \<and> (\<forall>idx len.
               (idx, len) \<in> set (events (currentIndex_mb mb) inp (matchers mb)) \<longleftrightarrow>
               (\<exists>i < length inp. \<exists>m \<in> set (matchers mb).
                  reports (run m (take i inp)) (inp ! i) \<and>
                  len = int (length (sequence m)) \<and>
                  idx = currentIndex_mb mb + of_int (int i - len + 1) \<and>
                  sint idx = sint (currentIndex_mb mb) + (int i - len + 1)))
         \<and> (\<forall>idx len.
               insert_all Map.empty (events (currentIndex_mb mb) inp (matchers mb)) idx = Some len
               \<longrightarrow> (idx, len) \<in> set (events (currentIndex_mb mb) inp (matchers mb)))
         \<and> (\<forall>idx len.
               (idx, len) \<in> set (events (currentIndex_mb mb) inp (matchers mb))
               \<longrightarrow> insert_all Map.empty (events (currentIndex_mb mb) inp (matchers mb)) idx
                     = Some len
                   \<or> (\<exists>l. len < l \<and>
                          (idx, l) \<in> set (events (currentIndex_mb mb) inp (matchers mb)) \<and>
                          insert_all Map.empty (events (currentIndex_mb mb) inp (matchers mb)) idx
                            = Some l))"
proof -
  let ?ci = "currentIndex_mb mb"
  let ?es = "events ?ci inp (matchers mb)"
  have a: "\<forall>idx len. insert_all Map.empty ?es idx = Some len \<longrightarrow> (idx, len) \<in> set ?es"
    using insert_all_only[of Map.empty ?es] by auto
  have b: "\<forall>idx len. (idx, len) \<in> set ?es
             \<longrightarrow> insert_all Map.empty ?es idx = Some len
                 \<or> (\<exists>l. len < l \<and> (idx, l) \<in> set ?es \<and> insert_all Map.empty ?es idx = Some l)"
  proof (intro allI impI)
    fix idx len assume "(idx, len) \<in> set ?es"
    from insert_all_holds[OF this, of Map.empty]
    obtain l where l: "insert_all Map.empty ?es idx = Some l" "len \<le> l" by blast
    from a l(1) have "(idx, l) \<in> set ?es" by blast
    with l show "insert_all Map.empty ?es idx = Some len
                 \<or> (\<exists>l. len < l \<and> (idx, l) \<in> set ?es \<and> insert_all Map.empty ?es idx = Some l)"
      by (cases "l = len") auto
  qed
  have rd: "sint (?ci + of_int (int i - int (length (sequence m)) + 1))
              = sint ?ci + (int i - int (length (sequence m)) + 1)"
    if "i < length inp" and "m \<in> set (matchers mb)" for i m
  proof -
    from that(2) assms(1,2) have L: "1 \<le> int (length (sequence m))"
      "int (length (sequence m)) < 2 ^ 63"
      by (auto simp: list_all_iff wellformed_def Suc_le_eq)
    from that(1) L assms(3) have lo: "- (2 ^ 63) \<le> sint ?ci + (int i - int (length (sequence m)) + 1)"
      by simp
    from that(1) L assms(4) have hi: "sint ?ci + (int i - int (length (sequence m)) + 1) < 2 ^ 63"
      by simp
    from sint_add_of_int[OF lo hi] show ?thesis .
  qed
  have c: "\<forall>idx len. (idx, len) \<in> set ?es \<longleftrightarrow>
               (\<exists>i < length inp. \<exists>m \<in> set (matchers mb).
                  reports (run m (take i inp)) (inp ! i) \<and>
                  len = int (length (sequence m)) \<and>
                  idx = ?ci + of_int (int i - len + 1) \<and>
                  sint idx = sint ?ci + (int i - len + 1))"
  proof (intro allI)
    fix idx len
    have "(idx, len) \<in> set ?es \<longleftrightarrow>
               (\<exists>i < length inp. \<exists>m \<in> set (matchers mb).
                  reports (run m (take i inp)) (inp ! i) \<and>
                  len = int (length (sequence m)) \<and>
                  idx = ?ci + of_int (int i - len + 1))"
      by (rule events_set[OF assms(1)])
    also have "\<dots> \<longleftrightarrow>
               (\<exists>i < length inp. \<exists>m \<in> set (matchers mb).
                  reports (run m (take i inp)) (inp ! i) \<and>
                  len = int (length (sequence m)) \<and>
                  idx = ?ci + of_int (int i - len + 1) \<and>
                  sint idx = sint ?ci + (int i - len + 1))"
      using rd by blast
    finally show "(idx, len) \<in> set ?es \<longleftrightarrow>
               (\<exists>i < length inp. \<exists>m \<in> set (matchers mb).
                  reports (run m (take i inp)) (inp ! i) \<and>
                  len = int (length (sequence m)) \<and>
                  idx = ?ci + of_int (int i - len + 1) \<and>
                  sint idx = sint ?ci + (int i - len + 1))" .
  qed
  have d: "sint (?ci + of_int (int (length inp))) = sint ?ci + int (length inp)"
    by (rule sint_add_length[OF assms(4)])
  from write_wellformed[OF assms(1), of inp] a b c d show ?thesis by blast
qed

theorem write_inserts_events_witness:
  "list_all wellformed (matchers \<lparr>matchers = [\<lparr>sequence = bytes ''ab'', currentIndex = 1\<rparr>,
                                               \<lparr>sequence = bytes ''bc'', currentIndex = 0\<rparr>],
                                   currentIndex_mb = 7\<rparr>)
   \<and> (0::int) \<le> sint (7::int64)
   \<and> sint (7::int64) + int (length (bytes ''bc'')) < 2 ^ 63
   \<and> events 7 (bytes ''bc'') [\<lparr>sequence = bytes ''ab'', currentIndex = 1\<rparr>,
                              \<lparr>sequence = bytes ''bc'', currentIndex = 0\<rparr>] = [(6, 2), (7, 2)]
   \<and> write \<lparr>matchers = [\<lparr>sequence = bytes ''ab'', currentIndex = 1\<rparr>,
                        \<lparr>sequence = bytes ''bc'', currentIndex = 0\<rparr>],
            currentIndex_mb = 7\<rparr> (bytes ''bc'')
       = Inr ([6 \<mapsto> 2, 7 \<mapsto> 2],
              \<lparr>matchers = [\<lparr>sequence = bytes ''ab'', currentIndex = 0\<rparr>,
                           \<lparr>sequence = bytes ''bc'', currentIndex = 0\<rparr>],
               currentIndex_mb = 9\<rparr>)
   \<and> sint (9::int64) = sint (7::int64) + int (length (bytes ''bc''))"
proof -
  let ?ms = "[\<lparr>sequence = bytes ''ab'', currentIndex = 1\<rparr>,
              \<lparr>sequence = bytes ''bc'', currentIndex = 0\<rparr>]"
  let ?mb = "\<lparr>matchers = ?ms, currentIndex_mb = 7\<rparr>"
  have wf: "list_all wellformed (matchers ?mb)"
    by (simp add: wellformed_def bytes_def)
  have sl: "list_all (\<lambda>m. int (length (sequence m)) < 2 ^ 63) (matchers ?mb)"
    by (simp add: bytes_def)
  have lo: "0 \<le> sint (currentIndex_mb ?mb)" by simp
  have hi: "sint (currentIndex_mb ?mb) + int (length (bytes ''bc'')) < 2 ^ 63"
    by (simp add: bytes_def)
  have ev: "events 7 (bytes ''bc'') ?ms = [(6, 2), (7, 2)]"
    by (simp add: events_def byte_events_def reports_def run_def after_def writeByte.simps
        findShift_def findShift_outer.simps findShift_inner.simps index_def bytes_def)
  have rn: "map (\<lambda>m. run m (bytes ''bc'')) ?ms =
            [\<lparr>sequence = bytes ''ab'', currentIndex = 0\<rparr>,
             \<lparr>sequence = bytes ''bc'', currentIndex = 0\<rparr>]"
    by (simp add: run_def after_def writeByte.simps
        findShift_def findShift_outer.simps findShift_inner.simps index_def bytes_def)
  have ins: "insert_all Map.empty [(6, 2), (7, 2)] = [6 \<mapsto> 2, 7 \<mapsto> 2]"
    by (simp add: insert_all_def add_def)
  from write_inserts_events[OF wf sl lo hi]
  have w: "write ?mb (bytes ''bc'') =
           Inr (insert_all Map.empty (events (currentIndex_mb ?mb) (bytes ''bc'') (matchers ?mb)),
                \<lparr>matchers = map (\<lambda>m. run m (bytes ''bc'')) (matchers ?mb),
                 currentIndex_mb = currentIndex_mb ?mb + of_int (int (length (bytes ''bc'')))\<rparr>)"
    and c: "sint (currentIndex_mb ?mb + of_int (int (length (bytes ''bc''))))
              = sint (currentIndex_mb ?mb) + int (length (bytes ''bc''))"
    by blast+
  from w have "write ?mb (bytes ''bc'') = Inr ([6 \<mapsto> 2, 7 \<mapsto> 2],
              \<lparr>matchers = [\<lparr>sequence = bytes ''ab'', currentIndex = 0\<rparr>,
                           \<lparr>sequence = bytes ''bc'', currentIndex = 0\<rparr>],
               currentIndex_mb = 9\<rparr>)"
    using ev rn ins by (simp add: bytes_def)
  moreover from c have "sint (9::int64) = sint (7::int64) + int (length (bytes ''bc''))"
    by (simp add: bytes_def)
  ultimately show ?thesis using wf lo hi ev by simp
qed

subsection \<open>Successive calls\<close>



lemma writes_keeps_wellformed:
  "list_all wellformed (matchers mb) \<Longrightarrow>
   \<exists>ts mb'. writes mb cs = Inr (ts, mb') \<and> list_all wellformed (matchers mb')"
proof (induction cs arbitrary: mb)
  case Nil
  then show ?case by simp
next
  case (Cons c cs)
  from write_keeps_wellformed[OF Cons.prems, of c] obtain t mb1 where
    w: "write mb c = Inr (t, mb1)" "list_all wellformed (matchers mb1)" by blast
  from Cons.IH[OF w(2)] obtain ts mb' where
    "writes mb1 cs = Inr (ts, mb')" "list_all wellformed (matchers mb')" by blast
  with w(1) show ?case by simp
qed

lemma newMatcher_wellformed:
  "[] \<notin> set sequences \<Longrightarrow> list_all wellformed (matchers (newMatcher sequences))"
  by (auto simp: newMatcher_def list_all_iff wellformed_def)





subsection \<open>Chunking\<close>

lemma write_matchers_shift:
  "write_matchers (ci + of_int k) i b ms res = write_matchers ci (i + k) b ms res"
proof (induction ms arbitrary: res)
  case Nil
  show ?case by simp
next
  case (Cons m ms)
  show ?case
  proof (cases "writeByte m b")
    case (Inl err)
    then show ?thesis by simp
  next
    case (Inr p)
    obtain match m' where p: "p = (match, m')" by (cases p)
    show ?thesis
      using Inr p by (simp add: Cons.IH algebra_simps cong: if_cong)
  qed
qed

lemma write_bytes_shift:
  "write_bytes (ci + of_int k) i bs ms res = write_bytes ci (i + k) bs ms res"
proof (induction bs arbitrary: i ms res)
  case Nil
  show ?case by simp
next
  case (Cons b bs)
  have e: "i + 1 + k = i + k + 1" by simp
  show ?case
  proof (cases "write_matchers ci (i + k) b ms res")
    case (Inl err)
    then show ?thesis by (simp add: write_matchers_shift)
  next
    case (Inr p)
    obtain t ms' where p: "p = (t, ms')" by (cases p)
    show ?thesis
      using Inr p Cons.IH[of "i + 1" ms' t]
      by (simp add: write_matchers_shift e)
  qed
qed

lemma write_bytes_append:
  "write_bytes ci i (xs @ ys) ms res =
     (case write_bytes ci i xs ms res of
        Inl e \<Rightarrow> Inl e
      | Inr (res', ms') \<Rightarrow> write_bytes ci (i + int (length xs)) ys ms' res')"
proof (induction xs arbitrary: i ms res)
  case Nil
  show ?case by simp
next
  case (Cons x xs)
  have e: "i + int (length (x # xs)) = i + 1 + int (length xs)" by simp
  show ?case
  proof (cases "write_matchers ci i x ms res")
    case (Inl err)
    then show ?thesis by simp
  next
    case (Inr p)
    obtain t ms' where p: "p = (t, ms')" by (cases p)
    show ?thesis
      unfolding e
      using Inr p Cons.IH[of "i + 1" ms' t]
      by simp
  qed
qed

lemma write_matchers_merge:
  "write_matchers ci i b ms res =
     (case write_matchers ci i b ms Map.empty of
        Inl e \<Rightarrow> Inl e
      | Inr (t, ms') \<Rightarrow> Inr (merge_longest res t, ms'))"
proof (induction ms arbitrary: res)
  case Nil
  show ?case by (simp add: merge_longest_empty_right)
next
  case (Cons m ms)
  show ?case
  proof (cases "writeByte m b")
    case (Inl e)
    then show ?thesis by simp
  next
    case (Inr p)
    obtain match m' where p: "p = (match, m')" by (cases p)
    let ?k = "ci + of_int (i - int (length (sequence m')) + 1)"
    let ?l = "int (length (sequence m'))"
    show ?thesis
    proof (cases match)
      case False
      with Inr p show ?thesis
        using Cons.IH[of res] by (simp split: sum.splits prod.splits)
    next
      case True
      have a: "\<And>k l. add res k l = merge_longest res (add Map.empty k l)"
        using add_merge_longest_right[of res Map.empty]
        by (simp add: merge_longest_empty_right)
      show ?thesis
        using Inr p True Cons.IH[of "add res ?k ?l"] Cons.IH[of "add Map.empty ?k ?l"]
        by (simp add: a merge_longest_assoc split: sum.splits prod.splits)
    qed
  qed
qed

lemma write_bytes_merge:
  "write_bytes ci i bs ms res =
     (case write_bytes ci i bs ms Map.empty of
        Inl e \<Rightarrow> Inl e
      | Inr (t, ms') \<Rightarrow> Inr (merge_longest res t, ms'))"
proof (induction bs arbitrary: i ms res)
  case Nil
  show ?case by (simp add: merge_longest_empty_right)
next
  case (Cons b bs)
  show ?case
  proof (cases "write_matchers ci i b ms Map.empty")
    case (Inl e)
    then show ?thesis using write_matchers_merge[of ci i b ms res] by simp
  next
    case (Inr p)
    obtain t ms' where p: "p = (t, ms')" by (cases p)
    have w: "write_matchers ci i b ms res = Inr (merge_longest res t, ms')"
      using write_matchers_merge[of ci i b ms res] Inr p by simp
    show ?thesis
      using Inr p w Cons.IH[of "i + 1" ms' "merge_longest res t"] Cons.IH[of "i + 1" ms' t]
      by (simp add: merge_longest_assoc split: sum.splits prod.splits)
  qed
qed

lemma write_append:
  "write mb (xs @ ys) =
     (case write mb xs of
        Inl e \<Rightarrow> Inl e
      | Inr (t, mb') \<Rightarrow>
          (case write mb' ys of
             Inl e \<Rightarrow> Inl e
           | Inr (u, mb'') \<Rightarrow> Inr (merge_longest t u, mb'')))"
proof (cases "write_bytes (currentIndex_mb mb) 0 xs (matchers mb) Map.empty")
  case (Inl e)
  then show ?thesis by (simp add: write_def write_bytes_append)
next
  case (Inr p)
  obtain t ms' where p: "p = (t, ms')" by (cases p)
  have s: "write_bytes (currentIndex_mb mb) (int (length xs)) ys ms' t =
           (case write_bytes (currentIndex_mb mb + of_int (int (length xs))) 0 ys ms' Map.empty of
              Inl e \<Rightarrow> Inl e
            | Inr (u, ms'') \<Rightarrow> Inr (merge_longest t u, ms''))"
    using write_bytes_merge[of "currentIndex_mb mb" "int (length xs)" ys ms' t]
          write_bytes_shift[of "currentIndex_mb mb" "int (length xs)" 0 ys ms' Map.empty]
    by simp
  show ?thesis
    using Inr p s
    by (simp add: write_def write_bytes_append add.assoc split: sum.splits prod.splits)
qed

lemma writes_concat:
  "write mb (concat cs) =
     (case writes mb cs of
        Inl e \<Rightarrow> Inl e
      | Inr (ts, mb') \<Rightarrow> Inr (foldl merge_longest Map.empty ts, mb'))"
proof (induction cs arbitrary: mb)
  case Nil
  show ?case by (simp add: write_Nil)
next
  case (Cons c cs)
  show ?case
  proof (cases "write mb c")
    case (Inl e)
    then show ?thesis by (simp add: write_append)
  next
    case (Inr p)
    obtain t mb' where p: "p = (t, mb')" by (cases p)
    show ?thesis
      using Inr p Cons.IH[of mb'] foldl_merge_longest[of t]
      by (simp add: write_append merge_longest_empty_left split: sum.splits prod.splits)
  qed
qed

text \<open>
  C1, as stated, fails: with the patterns \<open>a\<close> and \<open>ab\<close> and the stream \<open>ab\<close>, the
  calls \<open>write(a)\<close>, \<open>write(b)\<close> return \<open>{0: 1}\<close> and \<open>{0: 2}\<close>, whose union holds
  the pair \<open>(0, 1)\<close>, while the single call \<open>write(ab)\<close> returns \<open>{0: 2}\<close>.
\<close>

theorem chunking_union_counterexample:
  "writes (newMatcher [bytes ''a'', bytes ''ab'']) [bytes ''a'', bytes ''b'']
     = Inr ([[0 \<mapsto> 1], [0 \<mapsto> 2]],
            \<lparr>matchers = [\<lparr>sequence = bytes ''a'', currentIndex = 0\<rparr>,
                         \<lparr>sequence = bytes ''ab'', currentIndex = 0\<rparr>],
             currentIndex_mb = 2\<rparr>)
   \<and> write (newMatcher [bytes ''a'', bytes ''ab'']) (concat [bytes ''a'', bytes ''b''])
     = Inr ([0 \<mapsto> 2],
            \<lparr>matchers = [\<lparr>sequence = bytes ''a'', currentIndex = 0\<rparr>,
                         \<lparr>sequence = bytes ''ab'', currentIndex = 0\<rparr>],
             currentIndex_mb = 2\<rparr>)
   \<and> pairs_union [[0 \<mapsto> 1], [0 \<mapsto> 2]] \<noteq> pairs [0 \<mapsto> 2]"
proof -
  have "(0, 1) \<in> pairs_union [[0 \<mapsto> 1], [0 \<mapsto> 2]]"
    by (simp add: pairs_union_def pairs_def)
  moreover have "(0, 1) \<notin> pairs [0 \<mapsto> 2]"
    by (simp add: pairs_def)
  ultimately have "pairs_union [[0 \<mapsto> 1], [0 \<mapsto> 2]] \<noteq> pairs [0 \<mapsto> 2]"
    by blast
  then show ?thesis
    by (simp add: write_def newMatcher_def add_def writeByte.simps findShift_def
        findShift_outer.simps findShift_inner.simps index_def bytes_def)
qed

text \<open>
  C1, amended. For a fresh matcher over non-empty patterns and every division of a byte
  sequence into consecutive chunks, the successive \<open>write\<close> calls all return, the single
  \<open>write\<close> of the whole sequence returns the tables of the calls merged with the
  keep-longest rule of \<open>add\<close>, and both leave the matcher in the same state. So every
  pair of the single-call table is in the union of the per-call tables, and every pair of
  the union has its index in the single-call table with a length at least its own.
\<close>

theorem chunked_writes_merge:
  assumes "[] \<notin> set sequences"
  shows "\<exists>ts mb'.
           writes (newMatcher sequences) cs = Inr (ts, mb') \<and>
           write (newMatcher sequences) (concat cs)
             = Inr (foldl merge_longest Map.empty ts, mb') \<and>
           pairs (foldl merge_longest Map.empty ts) \<subseteq> pairs_union ts \<and>
           (\<forall>idx len. (idx, len) \<in> pairs_union ts \<longrightarrow>
              (\<exists>l. foldl merge_longest Map.empty ts idx = Some l \<and> len \<le> l))"
proof -
  from writes_keeps_wellformed[OF newMatcher_wellformed[OF assms], of cs]
  obtain ts mb' where w: "writes (newMatcher sequences) cs = Inr (ts, mb')" by blast
  have s: "write (newMatcher sequences) (concat cs) = Inr (foldl merge_longest Map.empty ts, mb')"
    using writes_concat[of "newMatcher sequences" cs] w by simp
  have sub: "pairs (foldl merge_longest Map.empty ts) \<subseteq> pairs_union ts"
    using merged_subset_union[of ts] by (auto simp: pairs_iff)
  have cov: "\<forall>idx len. (idx, len) \<in> pairs_union ts \<longrightarrow>
              (\<exists>l. foldl merge_longest Map.empty ts idx = Some l \<and> len \<le> l)"
    using union_covered_by_merged[of _ _ ts] by blast
  from w s sub cov show ?thesis by blast
qed

theorem chunked_writes_merge_witness:
  "[] \<notin> set [bytes ''a'', bytes ''ab'']
   \<and> writes (newMatcher [bytes ''a'', bytes ''ab'']) [bytes ''a'', bytes ''b'']
       = Inr ([[0 \<mapsto> 1], [0 \<mapsto> 2]],
              \<lparr>matchers = [\<lparr>sequence = bytes ''a'', currentIndex = 0\<rparr>,
                           \<lparr>sequence = bytes ''ab'', currentIndex = 0\<rparr>],
               currentIndex_mb = 2\<rparr>)
   \<and> write (newMatcher [bytes ''a'', bytes ''ab'']) (concat [bytes ''a'', bytes ''b''])
       = Inr (foldl merge_longest Map.empty [[0 \<mapsto> 1], [0 \<mapsto> 2]],
              \<lparr>matchers = [\<lparr>sequence = bytes ''a'', currentIndex = 0\<rparr>,
                           \<lparr>sequence = bytes ''ab'', currentIndex = 0\<rparr>],
               currentIndex_mb = 2\<rparr>)
   \<and> foldl merge_longest Map.empty [[0 \<mapsto> 1], [0 \<mapsto> (2::int)]] = [0 \<mapsto> 2]"
proof -
  let ?seqs = "[bytes ''a'', bytes ''ab'']"
  let ?cs = "[bytes ''a'', bytes ''b'']"
  let ?mb' = "\<lparr>matchers = [\<lparr>sequence = bytes ''a'', currentIndex = 0\<rparr>,
                           \<lparr>sequence = bytes ''ab'', currentIndex = 0\<rparr>],
               currentIndex_mb = 2\<rparr>"
  have ne: "[] \<notin> set ?seqs" by (simp add: bytes_def)
  have ws: "writes (newMatcher ?seqs) ?cs = Inr ([[0 \<mapsto> 1], [0 \<mapsto> 2]], ?mb')"
    by (simp add: write_def newMatcher_def add_def writeByte.simps findShift_def
        findShift_outer.simps findShift_inner.simps index_def bytes_def)
  have mg: "foldl merge_longest Map.empty [[0 \<mapsto> 1], [0 \<mapsto> (2::int)]] = [0 \<mapsto> 2]"
    by (rule ext) (simp add: merge_longest_def)
  from chunked_writes_merge[OF ne, of ?cs] ws
  have "write (newMatcher ?seqs) (concat ?cs)
          = Inr (foldl merge_longest Map.empty [[0 \<mapsto> 1], [0 \<mapsto> 2]], ?mb')"
    by auto
  with ne ws mg show ?thesis by blast
qed

subsection \<open>Construction\<close>

lemma index_Nil: "index [] i = Inl IndexOutOfRange"
  by (simp add: index_def)

lemma writeByte_empty_sequence: "sequence m = [] \<Longrightarrow> writeByte m b = Inl IndexOutOfRange"
  by (subst writeByte.simps) (simp add: index_Nil)

lemma write_matchers_empty_sequence:
  "list_all (\<lambda>m. wellformed m \<or> sequence m = []) ms \<Longrightarrow> \<exists>m \<in> set ms. sequence m = [] \<Longrightarrow>
   write_matchers ci i b ms res = Inl IndexOutOfRange"
proof (induction ms arbitrary: res)
  case Nil
  then show ?case by simp
next
  case (Cons m ms)
  show ?case
  proof (cases "sequence m = []")
    case True
    then show ?thesis by (simp add: writeByte_empty_sequence)
  next
    case False
    with Cons.prems have wf: "wellformed m" and rest: "list_all (\<lambda>m. wellformed m \<or> sequence m = []) ms"
      and ex: "\<exists>m \<in> set ms. sequence m = []"
      by auto
    from writeByte_wellformed[OF wf, of b] Cons.IH[OF rest ex] show ?thesis
      by simp
  qed
qed

lemma newMatcher_detectors:
  "list_all (\<lambda>m. wellformed m \<or> sequence m = []) (matchers (newMatcher sequences))"
  by (auto simp: newMatcher_def list_all_iff wellformed_def)

text \<open>
  C3, as stated, fails: \<open>newMatcher\<close> has no error result, and for the pattern list
  \<open>["ab", ""]\<close> it returns a matcher holding a detector for the empty pattern.
\<close>

theorem newMatcher_empty_pattern_counterexample:
  "newMatcher [bytes ''ab'', []]
     = \<lparr>matchers = [\<lparr>sequence = bytes ''ab'', currentIndex = 0\<rparr>,
                    \<lparr>sequence = [], currentIndex = 0\<rparr>],
        currentIndex_mb = 0\<rparr>"
  by (simp add: newMatcher_def)

text \<open>
  C3, amended. \<open>newMatcher\<close> never fails: for a pattern list that contains a
  zero-length pattern it returns a matcher holding one detector with cursor \<open>0\<close> per
  pattern, the empty pattern included, and \<open>currentIndex = 0\<close>. That matcher still
  accepts the empty chunk; the first \<open>write\<close> of a non-empty chunk panics with an index
  out of range.
\<close>

theorem newMatcher_accepts_empty_pattern:
  assumes "[] \<in> set sequences"
  shows "newMatcher sequences
           = \<lparr>matchers = map (\<lambda>seq. \<lparr>sequence = seq, currentIndex = 0\<rparr>) sequences,
              currentIndex_mb = 0\<rparr>
         \<and> \<lparr>sequence = [], currentIndex = 0\<rparr> \<in> set (matchers (newMatcher sequences))
         \<and> write (newMatcher sequences) [] = Inr (Map.empty, newMatcher sequences)
         \<and> write (newMatcher sequences) (b # bs) = Inl IndexOutOfRange"
proof -
  have mem: "\<lparr>sequence = [], currentIndex = 0\<rparr> \<in> set (matchers (newMatcher sequences))"
    using assms by (auto simp: newMatcher_def)
  then have ex: "\<exists>m \<in> set (matchers (newMatcher sequences)). sequence m = []"
    by force
  have "write_matchers 0 0 b (matchers (newMatcher sequences)) Map.empty = Inl IndexOutOfRange"
    using write_matchers_empty_sequence[OF newMatcher_detectors ex] .
  then have "write (newMatcher sequences) (b # bs) = Inl IndexOutOfRange"
    by (simp add: write_def newMatcher_def)
  with mem write_Nil[of "newMatcher sequences"] show ?thesis
    by (simp add: newMatcher_def)
qed

theorem newMatcher_accepts_empty_pattern_witness:
  "[] \<in> set [bytes ''ab'', []]
   \<and> \<lparr>sequence = [], currentIndex = 0\<rparr> \<in> set (matchers (newMatcher [bytes ''ab'', []]))
   \<and> write (newMatcher [bytes ''ab'', []]) [] = Inr (Map.empty, newMatcher [bytes ''ab'', []])
   \<and> write (newMatcher [bytes ''ab'', []]) (bytes ''ab'') = Inl IndexOutOfRange"
proof -
  have h: "[] \<in> set [bytes ''ab'', []]" by simp
  have b: "bytes ''ab'' = of_char CHR ''a'' # [of_char CHR ''b'']" by (simp add: bytes_def)
  from newMatcher_accepts_empty_pattern[OF h, of "of_char CHR ''a''" "[of_char CHR ''b'']"]
  have m: "\<lparr>sequence = [], currentIndex = 0\<rparr> \<in> set (matchers (newMatcher [bytes ''ab'', []]))"
    and e: "write (newMatcher [bytes ''ab'', []]) [] = Inr (Map.empty, newMatcher [bytes ''ab'', []])"
    and p: "write (newMatcher [bytes ''ab'', []]) (of_char CHR ''a'' # [of_char CHR ''b''])
              = Inl IndexOutOfRange"
    by blast+
  from p have "write (newMatcher [bytes ''ab'', []]) (bytes ''ab'') = Inl IndexOutOfRange"
    by (simp only: b)
  with h m e show ?thesis by blast
qed

subsection \<open>Examples\<close>

text \<open>
  Past \<open>2 ^ 63 - 1\<close> the matcher's \<open>currentIndex\<close> and the keys of the table wrap
  around, as Go's \<open>int64\<close> does: with \<open>currentIndex = 2 ^ 63 - 1\<close>, the pattern
  \<open>a\<close> and the chunk \<open>xa\<close>, the match is entered at \<open>- 2 ^ 63\<close> and the counter
  becomes \<open>- (2 ^ 63 - 1)\<close>.
\<close>

lemma write_wraps_like_int64:
  "write \<lparr>matchers = [\<lparr>sequence = bytes ''a'', currentIndex = 0\<rparr>],
          currentIndex_mb = 9223372036854775807\<rparr> (bytes ''xa'')
     = Inr ([9223372036854775808 \<mapsto> 1],
            \<lparr>matchers = [\<lparr>sequence = bytes ''a'', currentIndex = 0\<rparr>],
             currentIndex_mb = 9223372036854775809\<rparr>)
   \<and> sint (9223372036854775807 :: int64) = 2 ^ 63 - 1
   \<and> sint (9223372036854775808 :: int64) = - (2 ^ 63)
   \<and> sint (9223372036854775809 :: int64) = - (2 ^ 63 - 1)"
  by (simp add: write_def add_def writeByte.simps findShift_def
      findShift_outer.simps findShift_inner.simps index_def bytes_def)

text \<open>
  C2, as stated, fails: with the patterns \<open>aa\<close> and \<open>aaa\<close>, the single call
  \<open>write(aaaa)\<close> returns a table with no entry at offset \<open>1\<close>.
\<close>

theorem overlapping_patterns_counterexample:
  "(case write (newMatcher [bytes ''aa'', bytes ''aaa'']) (bytes ''aaaa'') of
      Inl e \<Rightarrow> False
    | Inr (t, mb') \<Rightarrow> t 0 = Some 3 \<and> t 1 = None)"
  by (simp add: write_def newMatcher_def add_def writeByte.simps findShift_def
      findShift_outer.simps findShift_inner.simps index_def bytes_def)

text \<open>
  C2, amended. With the patterns \<open>aa\<close> and \<open>aaa\<close>, the single call \<open>write(aaaa)\<close>
  returns exactly the table \<open>{0: 3, 2: 2}\<close>: offset \<open>0\<close> maps to length \<open>3\<close> (the
  longer pattern wins the merge there), offset \<open>2\<close> maps to length \<open>2\<close>, and offsets
  \<open>1\<close> and \<open>3\<close> are absent, because a detector restarts from cursor \<open>0\<close> after each
  match it reports and so does not report an occurrence that overlaps it.
\<close>

theorem overlapping_patterns_table:
  "write (newMatcher [bytes ''aa'', bytes ''aaa'']) (bytes ''aaaa'')
     = Inr ([0 \<mapsto> 3, 2 \<mapsto> 2],
            \<lparr>matchers = [\<lparr>sequence = bytes ''aa'', currentIndex = 0\<rparr>,
                         \<lparr>sequence = bytes ''aaa'', currentIndex = 1\<rparr>],
             currentIndex_mb = 4\<rparr>)
   \<and> [0 \<mapsto> 3, 2 \<mapsto> (2::int)] (1::int64) = None
   \<and> [0 \<mapsto> 3, 2 \<mapsto> (2::int)] (3::int64) = None"
  by (simp add: write_def newMatcher_def add_def writeByte.simps findShift_def
      findShift_outer.simps findShift_inner.simps index_def bytes_def fun_upd_twist)

text \<open>
  C7. With the single pattern \<open>foofoobar\<close>, the single call \<open>write(foofoofoobar)\<close>
  returns the table \<open>{3: 9}\<close>: the occurrence starting at the second \<open>foo\<close> is found.
\<close>

theorem self_overlap_recovery:
  "write (newMatcher [bytes ''foofoobar'']) (bytes ''foofoofoobar'')
     = Inr ([3 \<mapsto> 9],
            \<lparr>matchers = [\<lparr>sequence = bytes ''foofoobar'', currentIndex = 0\<rparr>],
             currentIndex_mb = 12\<rparr>)"
  by (simp add: write_def newMatcher_def add_def writeByte.simps findShift_def
      findShift_outer.simps findShift_inner.simps index_def bytes_def)

end
